theory Spec2Isabelle
  imports Main
begin

section \<open>Asynchronous request coordinators\<close>

text \<open>
  The post \<^verbatim>\<open>async-abstractions-vanilla-javascript\<close> defines three closures:
  \<^item> \<^verbatim>\<open>interruptibleRequestGen\<close> (lines 64-81): a requester that aborts the request in
    flight when a new one comes in;
  \<^item> \<^verbatim>\<open>controlledRequestGen(url)\<close> (lines 130-147): a requester that ignores calls while one
    request is in flight and re-opens when that request has produced its result;
  \<^item> \<^verbatim>\<open>controlledRequestGen()\<close> (lines 168-190): the same gate, re-opened only by the
    \<^verbatim>\<open>allowMoreRequests\<close> function it returns.

  JavaScript runs these \<^verbatim>\<open>async\<close> functions on one thread: a call runs without
  interruption up to its first \<^verbatim>\<open>await\<close>, and is resumed, again without interruption up to
  the next \<^verbatim>\<open>await\<close> or the end of the body, after the awaited promise has settled. Each
  of these uninterrupted pieces is one transition of the model. The closure variables of a
  generator call are the fields of a record; the promises returned by the calls made so far
  are kept beside them, in call order.

  For the two controlled requesters the settling of the awaited promise and the resumption
  of the call are one transition: their code reads \<^verbatim>\<open>allowRequests\<close> only, which nothing
  but a call or a resumption assigns, so a call made between the two finds what a call made
  before both finds. For the interruptible requester they are two transitions, because a
  call made between them aborts the controller, which no longer reaches a promise that has
  settled.
\<close>

subsection \<open>Values, promises and requests\<close>

text \<open>What \<^verbatim>\<open>response.json()\<close> can produce: any JSON document.\<close>

datatype json =
    JNull
  | JBool bool
  | JNum int
  | JStr string
  | JArr "json list"
  | JObj "(string \<times> json) list"

text \<open>
  A promise rejects with an error. \<^verbatim>\<open>fetch\<close> and the body reader reject with the
  abort error when the request's signal is aborted, and with some other error (network
  failure, malformed body) otherwise.
\<close>

datatype error = AbortError | Failure string

datatype 'a promise_result = Fulfilled 'a | Rejected error

type_synonym params = "(string \<times> string) list"

text \<open>A response is opaque here: only its body, read by \<^verbatim>\<open>json()\<close>, matters.\<close>

type_synonym response = nat

text \<open>
  \<^verbatim>\<open>new Request(fullUrl, { signal })\<close>: the URL and, when given, the identity of the abort
  signal the request listens to.
\<close>

record request =
  fullUrl :: string
  req_signal :: "nat option"

text \<open>
  The promise returned by one call of a requester, by how far the call has come: suspended
  at \<^verbatim>\<open>await fetch(...)\<close> with the fetch pending; the fetch settled and the call not yet
  resumed; suspended on the body read \<^verbatim>\<open>response.json()\<close>; the body read settled and the
  call not yet resumed; or settled.
\<close>

datatype phase =
    AwaitingFetch request
  | FetchDone "response promise_result"
  | AwaitingJson response
  | JsonDone "json promise_result"
  | Settled "json promise_result"

fun in_flight :: "phase \<Rightarrow> bool" where
  "in_flight (AwaitingFetch _) = True"
| "in_flight (FetchDone _) = True"
| "in_flight (AwaitingJson _) = True"
| "in_flight (JsonDone _) = True"
| "in_flight (Settled _) = False"

text \<open>
  What happens to a requester: it is called with its arguments, or the promise awaited by
  its \<open>i\<close>-th call settles with the result the network delivers. A promise settles once:
  an event for a call that does not exist or is not suspended on that promise changes
  nothing.
\<close>

datatype 'a event =
    Call 'a
  | FetchSettles nat "response promise_result"
  | JsonSettles nat "json promise_result"

record promises =
  calls :: "phase list"

subsection \<open>The interruptible request\<close>

text \<open>
  Closure of \<^verbatim>\<open>interruptibleRequestGen\<close>: \<^verbatim>\<open>currentRequest\<close> refers to the Request object
  created by one of the calls (named by the index of that call) or is \<^verbatim>\<open>null\<close>;
  \<^verbatim>\<open>controller\<close> is created once, when the generator is called, so its \<^verbatim>\<open>signal\<close> has
  one identity and one \<^verbatim>\<open>aborted\<close> flag for the whole life of the requester.
\<close>

record preempt = promises +
  currentRequest :: "nat option"
  signal :: nat
  aborted :: bool

definition interruptibleRequestGen :: "nat \<Rightarrow> preempt" where
  "interruptibleRequestGen sid =
     \<lparr>calls = [], currentRequest = None, signal = sid, aborted = False\<rparr>"

text \<open>
  \<^verbatim>\<open>makeRequest(url, params)\<close> up to \<^verbatim>\<open>await fetch(currentRequest)\<close>.
  \<^verbatim>\<open>paramterize\<close> is not defined in the repository and is a parameter.
\<close>

definition makeRequest :: "(params \<Rightarrow> string) \<Rightarrow> string \<Rightarrow> params \<Rightarrow> preempt \<Rightarrow> preempt" where
  "makeRequest paramterize url ps s =
     (let s1 = (if currentRequest s \<noteq> None then s\<lparr>aborted := True\<rparr> else s);
          req = \<lparr>fullUrl = url @ paramterize ps, req_signal = Some (signal s1)\<rparr>
      in s1\<lparr>currentRequest := Some (length (calls s1)),
            calls := calls s1 @ [AwaitingFetch req]\<rparr>)"

text \<open>
  A promise that is still pending when the signal of its request is aborted cannot be
  fulfilled any more: a pending fetch is rejected with the abort error, and a body that is
  still being read is errored, so that the read is rejected. The same holds for a fetch
  started with a signal that is aborted already. A rejection for another reason is
  delivered as it is. A promise that has settled keeps its result.
\<close>

definition settles :: "preempt \<Rightarrow> 'a promise_result \<Rightarrow> 'a promise_result" where
  "settles s r =
     (case r of
        Fulfilled x \<Rightarrow> (if aborted s then Rejected AbortError else Fulfilled x)
      | Rejected e \<Rightarrow> Rejected e)"

text \<open>The pending fetch of call \<open>i\<close> settles; the call is resumed later.\<close>

definition preempt_fetch_settles :: "nat \<Rightarrow> response promise_result \<Rightarrow> preempt \<Rightarrow> preempt" where
  "preempt_fetch_settles i r s =
     (if i < length (calls s) then
        (case calls s ! i of
           AwaitingFetch req \<Rightarrow> s\<lparr>calls := (calls s)[i := FetchDone (settles s r)]\<rparr>
         | _ \<Rightarrow> s)
      else s)"

text \<open>The pending body read of call \<open>i\<close> settles; the call is resumed later.\<close>

definition preempt_json_settles :: "nat \<Rightarrow> json promise_result \<Rightarrow> preempt \<Rightarrow> preempt" where
  "preempt_json_settles i r s =
     (if i < length (calls s) then
        (case calls s ! i of
           AwaitingJson resp \<Rightarrow> s\<lparr>calls := (calls s)[i := JsonDone (settles s r)]\<rparr>
         | _ \<Rightarrow> s)
      else s)"

text \<open>
  Call \<open>i\<close> is resumed with what the promise it awaited has settled with; the code
  looks at nothing else. After \<^verbatim>\<open>await fetch(currentRequest)\<close>: a rejection leaves the
  function (there is no handler), a response starts \<^verbatim>\<open>await response.json()\<close>. After
  \<^verbatim>\<open>await response.json()\<close>: with a result, \<^verbatim>\<open>currentRequest = null; return result\<close>,
  whatever \<^verbatim>\<open>currentRequest\<close> refers to by then; a rejection leaves the function before
  the assignment.
\<close>

definition preempt_resumes :: "nat \<Rightarrow> preempt \<Rightarrow> preempt" where
  "preempt_resumes i s =
     (if i < length (calls s) then
        (case calls s ! i of
           FetchDone (Fulfilled resp) \<Rightarrow> s\<lparr>calls := (calls s)[i := AwaitingJson resp]\<rparr>
         | FetchDone (Rejected e) \<Rightarrow> s\<lparr>calls := (calls s)[i := Settled (Rejected e)]\<rparr>
         | JsonDone (Fulfilled result) \<Rightarrow>
             s\<lparr>currentRequest := None,
               calls := (calls s)[i := Settled (Fulfilled result)]\<rparr>
         | JsonDone (Rejected e) \<Rightarrow> s\<lparr>calls := (calls s)[i := Settled (Rejected e)]\<rparr>
         | _ \<Rightarrow> s)
      else s)"

text \<open>
  Between the settling of a promise and the resumption of the call that awaits it, other
  code may run, another call of the requester included; so the two are separate events.
\<close>

datatype 'a preempt_event = Ev "'a event" | Resumes nat

fun preempt_step :: "(params \<Rightarrow> string) \<Rightarrow> preempt \<Rightarrow> (string \<times> params) preempt_event \<Rightarrow> preempt" where
  "preempt_step pz s (Ev (Call (url, ps))) = makeRequest pz url ps s"
| "preempt_step pz s (Ev (FetchSettles i r)) = preempt_fetch_settles i r s"
| "preempt_step pz s (Ev (JsonSettles i r)) = preempt_json_settles i r s"
| "preempt_step pz s (Resumes i) = preempt_resumes i s"

definition preempt_run :: "(params \<Rightarrow> string) \<Rightarrow> preempt \<Rightarrow> (string \<times> params) preempt_event list \<Rightarrow> preempt" where
  "preempt_run pz s evs = foldl (preempt_step pz) s evs"

subsection \<open>The controlled request, re-opened on completion\<close>

text \<open>
  Closure of \<^verbatim>\<open>controlledRequestGen\<close>: \<^verbatim>\<open>allowRequests\<close>, and for the first version
  (lines 130-147) the \<^verbatim>\<open>url\<close> argument of the generator.
\<close>

record manual_gate = promises +
  allowRequests :: bool

record gate = manual_gate +
  url :: string

definition controlledRequestGen :: "string \<Rightarrow> gate" where
  "controlledRequestGen u = \<lparr>calls = [], allowRequests = True, url = u\<rparr>"

text \<open>
  The function returned by the first version, up to \<^verbatim>\<open>await fetch(request)\<close> when
  requests are allowed; \<^verbatim>\<open>return false\<close> otherwise.
\<close>

definition controlledRequest :: "(params \<Rightarrow> string) \<Rightarrow> params \<Rightarrow> gate \<Rightarrow> gate" where
  "controlledRequest paramterize ps s =
     (if allowRequests s then
        (let s1 = s\<lparr>allowRequests := False\<rparr>;
             req = \<lparr>fullUrl = url s1 @ paramterize ps, req_signal = None\<rparr>
         in s1\<lparr>calls := calls s1 @ [AwaitingFetch req]\<rparr>)
      else s\<lparr>calls := calls s @ [Settled (Fulfilled (JBool False))]\<rparr>)"

definition gate_fetch_settles :: "nat \<Rightarrow> response promise_result \<Rightarrow> gate \<Rightarrow> gate" where
  "gate_fetch_settles i r s =
     (if i < length (calls s) then
        (case calls s ! i of
           AwaitingFetch req \<Rightarrow>
             (case r of
                Fulfilled resp \<Rightarrow> s\<lparr>calls := (calls s)[i := AwaitingJson resp]\<rparr>
              | Rejected e \<Rightarrow> s\<lparr>calls := (calls s)[i := Settled (Rejected e)]\<rparr>)
         | _ \<Rightarrow> s)
      else s)"

text \<open>
  Resumption after \<^verbatim>\<open>await response.json()\<close>: with a result,
  \<^verbatim>\<open>allowRequests = true; return result\<close>; a rejection leaves the function before the
  assignment.
\<close>

definition gate_json_settles :: "nat \<Rightarrow> json promise_result \<Rightarrow> gate \<Rightarrow> gate" where
  "gate_json_settles i r s =
     (if i < length (calls s) then
        (case calls s ! i of
           AwaitingJson resp \<Rightarrow>
             (case r of
                Fulfilled result \<Rightarrow>
                  s\<lparr>allowRequests := True,
                    calls := (calls s)[i := Settled (Fulfilled result)]\<rparr>
              | Rejected e \<Rightarrow> s\<lparr>calls := (calls s)[i := Settled (Rejected e)]\<rparr>)
         | _ \<Rightarrow> s)
      else s)"

fun gate_step :: "(params \<Rightarrow> string) \<Rightarrow> gate \<Rightarrow> params event \<Rightarrow> gate" where
  "gate_step pz s (Call ps) = controlledRequest pz ps s"
| "gate_step pz s (FetchSettles i r) = gate_fetch_settles i r s"
| "gate_step pz s (JsonSettles i r) = gate_json_settles i r s"

definition gate_run :: "(params \<Rightarrow> string) \<Rightarrow> gate \<Rightarrow> params event list \<Rightarrow> gate" where
  "gate_run pz s evs = foldl (gate_step pz) s evs"

subsection \<open>The controlled request, re-opened by the caller\<close>

text \<open>
  The second version (lines 168-190) is printed with two slips of syntax
  (\<^verbatim>\<open>return result,\<close> and a missing comma in the returned object); it is read as
  \<^verbatim>\<open>return result;\<close> and \<^verbatim>\<open>{ requester: makeRequest, allowMoreRequests: ... }\<close>.
  Its \<^verbatim>\<open>makeRequest\<close> takes the URL as an argument and never assigns
  \<^verbatim>\<open>allowRequests = true\<close>.
\<close>

definition controlledRequestGen2 :: manual_gate where
  "controlledRequestGen2 = \<lparr>calls = [], allowRequests = True\<rparr>"

definition requester :: "(params \<Rightarrow> string) \<Rightarrow> string \<Rightarrow> params \<Rightarrow> manual_gate \<Rightarrow> manual_gate" where
  "requester paramterize u ps s =
     (if allowRequests s then
        (let s1 = s\<lparr>allowRequests := False\<rparr>;
             req = \<lparr>fullUrl = u @ paramterize ps, req_signal = None\<rparr>
         in s1\<lparr>calls := calls s1 @ [AwaitingFetch req]\<rparr>)
      else s\<lparr>calls := calls s @ [Settled (Fulfilled (JBool False))]\<rparr>)"

text \<open>
  Resumption after \<^verbatim>\<open>await fetch(request)\<close>: \<^verbatim>\<open>response.json()\<close> is returned without
  \<^verbatim>\<open>await\<close>, so the function body ends here and the promise of the call takes the fate
  of the body read.
\<close>

definition manual_fetch_settles :: "nat \<Rightarrow> response promise_result \<Rightarrow> manual_gate \<Rightarrow> manual_gate" where
  "manual_fetch_settles i r s =
     (if i < length (calls s) then
        (case calls s ! i of
           AwaitingFetch req \<Rightarrow>
             (case r of
                Fulfilled resp \<Rightarrow> s\<lparr>calls := (calls s)[i := AwaitingJson resp]\<rparr>
              | Rejected e \<Rightarrow> s\<lparr>calls := (calls s)[i := Settled (Rejected e)]\<rparr>)
         | _ \<Rightarrow> s)
      else s)"

definition manual_json_settles :: "nat \<Rightarrow> json promise_result \<Rightarrow> manual_gate \<Rightarrow> manual_gate" where
  "manual_json_settles i r s =
     (if i < length (calls s) then
        (case calls s ! i of
           AwaitingJson resp \<Rightarrow> s\<lparr>calls := (calls s)[i := Settled r]\<rparr>
         | _ \<Rightarrow> s)
      else s)"

definition allowMoreRequests :: "manual_gate \<Rightarrow> manual_gate" where
  "allowMoreRequests s = s\<lparr>allowRequests := True\<rparr>"

datatype 'a manual_event = Async "'a event" | AllowMoreRequests

fun manual_step :: "(params \<Rightarrow> string) \<Rightarrow> manual_gate \<Rightarrow> (string \<times> params) manual_event \<Rightarrow> manual_gate" where
  "manual_step pz s (Async (Call (u, ps))) = requester pz u ps s"
| "manual_step pz s (Async (FetchSettles i r)) = manual_fetch_settles i r s"
| "manual_step pz s (Async (JsonSettles i r)) = manual_json_settles i r s"
| "manual_step pz s AllowMoreRequests = allowMoreRequests s"

definition manual_run :: "(params \<Rightarrow> string) \<Rightarrow> manual_gate \<Rightarrow> (string \<times> params) manual_event list \<Rightarrow> manual_gate" where
  "manual_run pz s evs = foldl (manual_step pz) s evs"

subsection \<open>Several requesters on one page\<close>

text \<open>
  The requesters of a page, each with what it is at the moment: the values of its closure
  variables and the promises of its calls.
\<close>

datatype coordinator = Preempt preempt | Gate gate | Manual manual_gate

datatype op =
    PreemptOp "(string \<times> params) preempt_event"
  | GateOp "params event"
  | ManualOp "(string \<times> params) manual_event"

fun coord_step :: "(params \<Rightarrow> string) \<Rightarrow> coordinator \<Rightarrow> op \<Rightarrow> coordinator" where
  "coord_step pz (Preempt s) (PreemptOp e) = Preempt (preempt_step pz s e)"
| "coord_step pz (Gate s) (GateOp e) = Gate (gate_step pz s e)"
| "coord_step pz (Manual s) (ManualOp e) = Manual (manual_step pz s e)"
| "coord_step pz c _ = c"

definition coord_run :: "(params \<Rightarrow> string) \<Rightarrow> coordinator \<Rightarrow> op list \<Rightarrow> coordinator" where
  "coord_run pz c ops = foldl (coord_step pz) c ops"

text \<open>
  Every call of a generator creates variables of its own: \<^verbatim>\<open>let currentRequest = null\<close>
  and \<^verbatim>\<open>new AbortController()\<close> (lines 65-66), \<^verbatim>\<open>let allowRequests = true\<close> (lines 131
  and 169). The page keeps all variables of a kind in one list; creating one appends a cell
  to the list, and the function the generator returns captures the addresses of the cells
  created by its own generator call (for the first controlled requester also the value of
  the parameter \<^verbatim>\<open>url\<close>, which is never assigned). The identity of the abort signal of an
  interruptible requester is the address of its controller.
\<close>

datatype closure =
    Interruptible nat nat
  | Controlled nat string
  | Controlled2 nat

record page =
  requestVars :: "nat option list"
  controllers :: "bool list"
  flagVars :: "bool list"
  requesters :: "(closure \<times> phase list) list"

definition empty_page :: page where
  "empty_page = \<lparr>requestVars = [], controllers = [], flagVars = [], requesters = []\<rparr>"

definition newInterruptible :: "page \<Rightarrow> page" where
  "newInterruptible p =
     p\<lparr>requestVars := requestVars p @ [None],
       controllers := controllers p @ [False],
       requesters := requesters p
         @ [(Interruptible (length (requestVars p)) (length (controllers p)), [])]\<rparr>"

definition newControlled :: "string \<Rightarrow> page \<Rightarrow> page" where
  "newControlled u p =
     p\<lparr>flagVars := flagVars p @ [True],
       requesters := requesters p @ [(Controlled (length (flagVars p)) u, [])]\<rparr>"

definition newControlled2 :: "page \<Rightarrow> page" where
  "newControlled2 p =
     p\<lparr>flagVars := flagVars p @ [True],
       requesters := requesters p @ [(Controlled2 (length (flagVars p)), [])]\<rparr>"

text \<open>
  A returned function reads and assigns the variables of its closure and no others:
  \<open>view\<close> reads them at the captured addresses, \<open>put\<close> assigns them there after the
  step. An action creates a requester or is an event of the requester with the given index;
  an operation that a requester does not have leaves it as it is.
\<close>

fun view :: "page \<Rightarrow> closure \<times> phase list \<Rightarrow> coordinator" where
  "view p (Interruptible a c, cs) =
     Preempt \<lparr>calls = cs, currentRequest = requestVars p ! a, signal = c,
              aborted = controllers p ! c\<rparr>"
| "view p (Controlled f u, cs) = Gate \<lparr>calls = cs, allowRequests = flagVars p ! f, url = u\<rparr>"
| "view p (Controlled2 f, cs) = Manual \<lparr>calls = cs, allowRequests = flagVars p ! f\<rparr>"

fun put :: "page \<Rightarrow> nat \<Rightarrow> closure \<Rightarrow> coordinator \<Rightarrow> page" where
  "put p j (Interruptible a c) (Preempt s) =
     p\<lparr>requestVars := (requestVars p)[a := currentRequest s],
       controllers := (controllers p)[c := aborted s],
       requesters := (requesters p)[j := (Interruptible a c, calls s)]\<rparr>"
| "put p j (Controlled f u) (Gate s) =
     p\<lparr>flagVars := (flagVars p)[f := allowRequests s],
       requesters := (requesters p)[j := (Controlled f u, calls s)]\<rparr>"
| "put p j (Controlled2 f) (Manual s) =
     p\<lparr>flagVars := (flagVars p)[f := allowRequests s],
       requesters := (requesters p)[j := (Controlled2 f, calls s)]\<rparr>"
| "put p j _ _ = p"

datatype action =
    NewInterruptible
  | NewControlled string
  | NewControlled2
  | On nat op

fun page_step :: "(params \<Rightarrow> string) \<Rightarrow> page \<Rightarrow> action \<Rightarrow> page" where
  "page_step pz p NewInterruptible = newInterruptible p"
| "page_step pz p (NewControlled u) = newControlled u p"
| "page_step pz p NewControlled2 = newControlled2 p"
| "page_step pz p (On j x) =
     (if j < length (requesters p)
      then put p j (fst (requesters p ! j)) (coord_step pz (view p (requesters p ! j)) x)
      else p)"

definition page_run :: "(params \<Rightarrow> string) \<Rightarrow> page \<Rightarrow> action list \<Rightarrow> page" where
  "page_run pz p acts = foldl (page_step pz) p acts"

text \<open>The events of requester \<open>j\<close> among the actions of the page, in order.\<close>

fun ops_on :: "nat \<Rightarrow> action list \<Rightarrow> op list" where
  "ops_on j [] = []"
| "ops_on j (On i x # acts) = (if i = j then x # ops_on j acts else ops_on j acts)"
| "ops_on j (_ # acts) = ops_on j acts"

subsection \<open>Invariants\<close>

text \<open>
  As long as the controller of an interruptible requester has not been aborted, every call
  whose promise has not settled is the one whose Request \<^verbatim>\<open>currentRequest\<close> refers to; so
  there is at most one.
\<close>

definition preempt_inv :: "preempt \<Rightarrow> bool" where
  "preempt_inv s \<longleftrightarrow>
     (\<not> aborted s \<longrightarrow>
        (\<forall>i < length (calls s). in_flight (calls s ! i) \<longrightarrow> currentRequest s = Some i))"

text \<open>
  The body read of a call has not produced a result (yet, or at all), and the call has not
  ended.
\<close>

fun unread :: "phase \<Rightarrow> bool" where
  "unread (AwaitingFetch _) = True"
| "unread (FetchDone _) = True"
| "unread (AwaitingJson _) = True"
| "unread (JsonDone (Rejected _)) = True"
| "unread (JsonDone (Fulfilled _)) = False"
| "unread (Settled _) = False"

text \<open>
  Once the controller is aborted, a call whose body read has not produced a result can
  only end rejected.
\<close>

fun failed :: "phase \<Rightarrow> bool" where
  "failed (Settled (Rejected _)) = True"
| "failed _ = False"

definition doomed :: "preempt \<Rightarrow> nat \<Rightarrow> bool" where
  "doomed s k \<longleftrightarrow>
     aborted s \<and> k < length (calls s) \<and> (unread (calls s ! k) \<or> failed (calls s ! k))"

text \<open>
  The first controlled requester has at most one call suspended, and none while it allows
  requests.
\<close>

definition gate_inv :: "gate \<Rightarrow> bool" where
  "gate_inv s \<longleftrightarrow>
     length (filter in_flight (calls s)) \<le> 1
     \<and> (allowRequests s \<longrightarrow> filter in_flight (calls s) = [])"

text \<open>
  The closures of a page capture cells that exist, and two of them never capture the same
  cell.
\<close>

fun in_range :: "page \<Rightarrow> closure \<Rightarrow> bool" where
  "in_range p (Interruptible a c) \<longleftrightarrow> a < length (requestVars p) \<and> c < length (controllers p)"
| "in_range p (Controlled f u) \<longleftrightarrow> f < length (flagVars p)"
| "in_range p (Controlled2 f) \<longleftrightarrow> f < length (flagVars p)"

fun flag_of :: "closure \<Rightarrow> nat option" where
  "flag_of (Interruptible a c) = None"
| "flag_of (Controlled f u) = Some f"
| "flag_of (Controlled2 f) = Some f"

fun apart :: "closure \<Rightarrow> closure \<Rightarrow> bool" where
  "apart (Interruptible a c) (Interruptible a' c') \<longleftrightarrow> a \<noteq> a' \<and> c \<noteq> c'"
| "apart (Interruptible a c) _ \<longleftrightarrow> True"
| "apart _ (Interruptible a c) \<longleftrightarrow> True"
| "apart x y \<longleftrightarrow> flag_of x \<noteq> flag_of y"

definition page_wf :: "page \<Rightarrow> bool" where
  "page_wf p \<longleftrightarrow>
     (\<forall>j < length (requesters p). in_range p (fst (requesters p ! j)))
     \<and> (\<forall>i < length (requesters p). \<forall>j < length (requesters p).
          i \<noteq> j \<longrightarrow> apart (fst (requesters p ! i)) (fst (requesters p ! j)))"

section \<open>Properties\<close>

subsection \<open>Lemmas on the interruptible request\<close>

lemma preempt_inv_init: "preempt_inv (interruptibleRequestGen sid)"
  by (simp add: preempt_inv_def interruptibleRequestGen_def)

lemma preempt_inv_call:
  assumes "preempt_inv s" shows "preempt_inv (makeRequest pz u ps s)"
proof (cases "currentRequest s")
  case None
  with assms show ?thesis
    by (auto simp: preempt_inv_def makeRequest_def Let_def nth_append)
next
  case (Some j)
  then show ?thesis
    by (simp add: preempt_inv_def makeRequest_def Let_def)
qed

lemma preempt_unique:
  assumes "preempt_inv s" and "\<not> aborted s"
    and "i < length (calls s)" and "in_flight (calls s ! i)"
    and "k < length (calls s)" and "in_flight (calls s ! k)"
  shows "k = i"
proof -
  from assms(1,2,3,4) have "currentRequest s = Some i"
    unfolding preempt_inv_def by blast
  moreover from assms(1,2,5,6) have "currentRequest s = Some k"
    unfolding preempt_inv_def by blast
  ultimately show ?thesis by simp
qed

lemma preempt_inv_settle:
  assumes inv: "preempt_inv s" and i: "i < length (calls s)" and fl: "in_flight (calls s ! i)"
    and c: "c = currentRequest s \<or> \<not> in_flight y"
  shows "preempt_inv (s\<lparr>currentRequest := c, calls := (calls s)[i := y]\<rparr>)"
proof (cases "aborted s")
  case True
  then show ?thesis by (simp add: preempt_inv_def)
next
  case False
  from inv False i fl have cur: "currentRequest s = Some i"
    unfolding preempt_inv_def by blast
  have "currentRequest (s\<lparr>currentRequest := c, calls := (calls s)[i := y]\<rparr>) = Some k"
    if k: "k < length (calls s)" and kfl: "in_flight ((calls s)[i := y] ! k)" for k
  proof (cases "k = i")
    case True
    with i kfl have "in_flight y" by simp
    with c cur True show ?thesis by simp
  next
    case ne: False
    with kfl have "in_flight (calls s ! k)" by simp
    from preempt_unique [OF inv False i fl k this] ne show ?thesis by simp
  qed
  then show ?thesis by (simp add: preempt_inv_def)
qed

lemma preempt_inv_update:
  assumes inv: "preempt_inv s" and i: "i < length (calls s)" and fl: "in_flight (calls s ! i)"
  shows "preempt_inv (s\<lparr>calls := (calls s)[i := y]\<rparr>)"
  using preempt_inv_settle [OF inv i fl, of "currentRequest s" y] by simp

lemma preempt_inv_fetch:
  assumes inv: "preempt_inv s" shows "preempt_inv (preempt_fetch_settles i r s)"
proof (cases "i < length (calls s) \<and> (\<exists>req. calls s ! i = AwaitingFetch req)")
  case False
  with inv show ?thesis
    by (auto simp: preempt_fetch_settles_def split: phase.splits)
next
  case True
  then obtain req where i: "i < length (calls s)" and at: "calls s ! i = AwaitingFetch req"
    by blast
  then have fl: "in_flight (calls s ! i)" by simp
  show ?thesis
    by (simp add: preempt_fetch_settles_def i at preempt_inv_update [OF inv i fl])
qed

lemma preempt_inv_json:
  assumes inv: "preempt_inv s" shows "preempt_inv (preempt_json_settles i r s)"
proof (cases "i < length (calls s) \<and> (\<exists>resp. calls s ! i = AwaitingJson resp)")
  case False
  with inv show ?thesis
    by (auto simp: preempt_json_settles_def split: phase.splits)
next
  case True
  then obtain resp where i: "i < length (calls s)" and at: "calls s ! i = AwaitingJson resp"
    by blast
  then have fl: "in_flight (calls s ! i)" by simp
  show ?thesis
    by (simp add: preempt_json_settles_def i at preempt_inv_update [OF inv i fl])
qed

lemma preempt_inv_resumes:
  assumes inv: "preempt_inv s" shows "preempt_inv (preempt_resumes i s)"
proof (cases "i < length (calls s) \<and> in_flight (calls s ! i)")
  case False
  with inv show ?thesis
    by (auto simp: preempt_resumes_def split: phase.splits promise_result.splits)
next
  case True
  then have i: "i < length (calls s)" and fl: "in_flight (calls s ! i)" by simp_all
  have clr: "preempt_inv (s\<lparr>currentRequest := None, calls := (calls s)[i := Settled y]\<rparr>)" for y
    using preempt_inv_settle [OF inv i fl, of None "Settled y"] by simp
  show ?thesis
    using inv
    by (simp add: preempt_resumes_def i preempt_inv_update [OF inv i fl] clr
        split: phase.splits promise_result.splits)
qed

lemma preempt_inv_step: "preempt_inv s \<Longrightarrow> preempt_inv (preempt_step pz s e)"
  by (induction pz s e rule: preempt_step.induct)
     (simp_all add: preempt_inv_call preempt_inv_fetch preempt_inv_json preempt_inv_resumes)

lemma preempt_inv_run: "preempt_inv s \<Longrightarrow> preempt_inv (preempt_run pz s evs)"
  unfolding preempt_run_def
  by (induction evs arbitrary: s) (simp_all add: preempt_inv_step)

lemma doomed_call: "doomed s k \<Longrightarrow> doomed (makeRequest pz u ps s) k"
  by (auto simp: doomed_def makeRequest_def Let_def nth_append)

lemma doomed_fetch: "doomed s k \<Longrightarrow> doomed (preempt_fetch_settles i r s) k"
  by (cases "i = k")
     (auto simp: doomed_def preempt_fetch_settles_def split: phase.splits)

lemma doomed_json: "doomed s k \<Longrightarrow> doomed (preempt_json_settles i r s) k"
  by (cases "i = k"; cases r)
     (auto simp: doomed_def preempt_json_settles_def settles_def split: phase.splits)

lemma doomed_resumes: "doomed s k \<Longrightarrow> doomed (preempt_resumes i s) k"
  by (cases "i = k")
     (auto simp: doomed_def preempt_resumes_def split: phase.splits promise_result.splits)

lemma doomed_step: "doomed s k \<Longrightarrow> doomed (preempt_step pz s e) k"
  by (induction pz s e rule: preempt_step.induct)
     (simp_all add: doomed_call doomed_fetch doomed_json doomed_resumes)

lemma doomed_run: "doomed s k \<Longrightarrow> doomed (preempt_run pz s evs) k"
  unfolding preempt_run_def
  by (induction evs arbitrary: s) (simp_all add: doomed_step)

lemma unread_in_flight: "unread p \<Longrightarrow> in_flight p"
  by (cases p) simp_all

lemma superseded_is_doomed:
  assumes inv: "preempt_inv s" and k: "k < length (calls s)" and ur: "unread (calls s ! k)"
  shows "doomed (makeRequest pz u ps s) k"
proof -
  from ur have fl: "in_flight (calls s ! k)" by (rule unread_in_flight)
  have "aborted (makeRequest pz u ps s)"
  proof (cases "currentRequest s")
    case None
    have "aborted s"
    proof (rule ccontr)
      assume "\<not> aborted s"
      with inv k fl have "currentRequest s = Some k"
        unfolding preempt_inv_def by blast
      with None show False by simp
    qed
    then show ?thesis by (simp add: makeRequest_def Let_def)
  next
    case (Some j)
    then show ?thesis by (simp add: makeRequest_def Let_def)
  qed
  with k ur show ?thesis
    by (simp add: doomed_def makeRequest_def Let_def nth_append)
qed

lemma settle_keeps_current:
  "currentRequest (preempt_fetch_settles i r s) = currentRequest s"
  "currentRequest (preempt_json_settles i r' s) = currentRequest s"
  by (auto simp: preempt_fetch_settles_def preempt_json_settles_def split: phase.splits)

subsection \<open>Lemmas on the controlled request\<close>

lemma count_update:
  "i < length xs \<Longrightarrow>
     length (filter P (xs[i := y])) + (if P (xs ! i) then 1 else 0)
       = length (filter P xs) + (if P y then 1 else 0)"
proof (induction xs arbitrary: i)
  case Nil
  then show ?case by simp
next
  case (Cons x xs)
  show ?case
  proof (cases i)
    case 0
    then show ?thesis by simp
  next
    case (Suc n)
    with Cons.prems have "n < length xs" by simp
    from Cons.IH [OF this] Suc show ?thesis by simp
  qed
qed

lemma gate_inv_init: "gate_inv (controlledRequestGen u)"
  by (simp add: gate_inv_def controlledRequestGen_def)

lemma gate_inv_call: "gate_inv s \<Longrightarrow> gate_inv (controlledRequest pz ps s)"
  by (auto simp: gate_inv_def controlledRequest_def Let_def)

lemma gate_slot:
  assumes inv: "gate_inv s" and i: "i < length (calls s)" and fl: "in_flight (calls s ! i)"
  shows "\<not> allowRequests s"
    and "length (filter in_flight ((calls s)[i := y])) \<le> 1"
    and "\<not> in_flight y \<Longrightarrow> filter in_flight ((calls s)[i := y]) = []"
proof -
  show "\<not> allowRequests s"
  proof
    assume "allowRequests s"
    with inv have "filter in_flight (calls s) = []" by (simp add: gate_inv_def)
    then have "\<forall>x \<in> set (calls s). \<not> in_flight x" by (simp add: filter_empty_conv)
    with i fl show False by (meson nth_mem)
  qed
  from count_update [OF i, of in_flight y] fl
  have c: "length (filter in_flight ((calls s)[i := y])) + 1
             = length (filter in_flight (calls s)) + (if in_flight y then 1 else 0)"
    by simp
  from inv have le: "length (filter in_flight (calls s)) \<le> 1" by (simp add: gate_inv_def)
  from c le show "length (filter in_flight ((calls s)[i := y])) \<le> 1"
    by (simp split: if_splits)
  assume "\<not> in_flight y"
  with c le have "length (filter in_flight ((calls s)[i := y])) = 0" by arith
  then show "filter in_flight ((calls s)[i := y]) = []" by simp
qed

lemma gate_inv_fetch: 
  assumes inv: "gate_inv s" shows "gate_inv (gate_fetch_settles i r s)"
proof (cases "i < length (calls s) \<and> (\<exists>req. calls s ! i = AwaitingFetch req)")
  case False
  with inv show ?thesis by (auto simp: gate_fetch_settles_def split: phase.splits)
next
  case True
  then obtain req where i: "i < length (calls s)" and at: "calls s ! i = AwaitingFetch req"
    by blast
  then have fl: "in_flight (calls s ! i)" by simp
  note slot = gate_slot [OF inv i fl]
  show ?thesis
  proof (cases r)
    case (Fulfilled resp)
    with i at slot(1) slot(2) [of "AwaitingJson resp"] show ?thesis
      by (simp add: gate_inv_def gate_fetch_settles_def)
  next
    case (Rejected e)
    with i at slot(1) slot(2) [of "Settled (Rejected e)"] show ?thesis
      by (simp add: gate_inv_def gate_fetch_settles_def)
  qed
qed

lemma gate_inv_json: 
  assumes inv: "gate_inv s" shows "gate_inv (gate_json_settles i r s)"
proof (cases "i < length (calls s) \<and> (\<exists>resp. calls s ! i = AwaitingJson resp)")
  case False
  with inv show ?thesis by (auto simp: gate_json_settles_def split: phase.splits)
next
  case True
  then obtain resp where i: "i < length (calls s)" and at: "calls s ! i = AwaitingJson resp"
    by blast
  then have fl: "in_flight (calls s ! i)" by simp
  note slot = gate_slot [OF inv i fl]
  show ?thesis
  proof (cases r)
    case (Fulfilled v)
    with i at slot(2) [of "Settled (Fulfilled v)"] slot(3) [of "Settled (Fulfilled v)"]
    show ?thesis
      by (simp add: gate_inv_def gate_json_settles_def)
  next
    case (Rejected e)
    with i at slot(1) slot(2) [of "Settled (Rejected e)"] show ?thesis
      by (simp add: gate_inv_def gate_json_settles_def)
  qed
qed

lemma gate_inv_step: "gate_inv s \<Longrightarrow> gate_inv (gate_step pz s e)"
  by (cases e) (simp_all add: gate_inv_call gate_inv_fetch gate_inv_json)

lemma gate_inv_run: "gate_inv s \<Longrightarrow> gate_inv (gate_run pz s evs)"
  unfolding gate_run_def
  by (induction evs arbitrary: s) (simp_all add: gate_inv_step)

lemma gate_url_step: "url (gate_step pz s e) = url s"
  by (cases e)
     (auto simp: controlledRequest_def gate_fetch_settles_def gate_json_settles_def Let_def
        split: phase.splits promise_result.splits)

lemma gate_settled_step:
  assumes "i < length (calls s)" and "calls s ! i = Settled r"
  shows "i < length (calls (gate_step pz s e)) \<and> calls (gate_step pz s e) ! i = Settled r"
proof (cases e)
  case (Call ps)
  with assms show ?thesis
    by (simp add: controlledRequest_def Let_def nth_append)
next
  case (FetchSettles k x)
  with assms show ?thesis
    by (cases "k = i")
       (auto simp: gate_fetch_settles_def split: phase.splits promise_result.splits)
next
  case (JsonSettles k x)
  with assms show ?thesis
    by (cases "k = i")
       (auto simp: gate_json_settles_def split: phase.splits promise_result.splits)
qed

lemma gate_settled_run:
  "i < length (calls s) \<Longrightarrow> calls s ! i = Settled r \<Longrightarrow>
     i < length (calls (gate_run pz s evs)) \<and> calls (gate_run pz s evs) ! i = Settled r"
  unfolding gate_run_def
proof (induction evs arbitrary: s)
  case Nil
  then show ?case by simp
next
  case (Cons e evs)
  from gate_settled_step [OF Cons.prems, of pz e] Cons.IH [of "gate_step pz s e"]
  show ?case by simp
qed

lemma manual_closed_step:
  "\<not> allowRequests s \<Longrightarrow> \<not> allowRequests (manual_step pz s (Async e))"
  by (cases e)
     (auto simp: requester_def manual_fetch_settles_def manual_json_settles_def
        split: phase.splits promise_result.splits)

lemma manual_closed_run:
  "\<not> allowRequests s \<Longrightarrow> AllowMoreRequests \<notin> set evs \<Longrightarrow>
     \<not> allowRequests (manual_run pz s evs)"
  unfolding manual_run_def
proof (induction evs arbitrary: s)
  case Nil
  then show ?case by simp
next
  case (Cons e evs)
  from Cons.prems obtain a where e: "e = Async a" by (cases e) auto
  with Cons.prems have "\<not> allowRequests (manual_step pz s e)"
    by (simp add: manual_closed_step)
  with Cons show ?case by simp
qed



lemma gate_locked_step:
  assumes "\<not> allowRequests s" and "filter in_flight (calls s) = []"
  shows "\<not> allowRequests (gate_step pz s e) \<and> filter in_flight (calls (gate_step pz s e)) = []"
proof -
  from assms(2) have none: "\<not> in_flight (calls s ! i)" if "i < length (calls s)" for i
    using that by (metis filter_empty_conv nth_mem)
  show ?thesis
  proof (cases e)
    case (Call ps)
    with assms show ?thesis by (simp add: controlledRequest_def)
  next
    case (FetchSettles i r)
    have "gate_fetch_settles i r s = s"
      using none [of i] by (auto simp: gate_fetch_settles_def split: phase.splits)
    with FetchSettles assms show ?thesis by simp
  next
    case (JsonSettles i r)
    have "gate_json_settles i r s = s"
      using none [of i] by (auto simp: gate_json_settles_def split: phase.splits)
    with JsonSettles assms show ?thesis by simp
  qed
qed

lemma gate_locked_run:
  "\<not> allowRequests s \<Longrightarrow> filter in_flight (calls s) = [] \<Longrightarrow>
     \<not> allowRequests (gate_run pz s evs) \<and> filter in_flight (calls (gate_run pz s evs)) = []"
  unfolding gate_run_def
proof (induction evs arbitrary: s)
  case Nil
  then show ?case by simp
next
  case (Cons e evs)
  from gate_locked_step [OF Cons.prems, of pz e] Cons.IH [of "gate_step pz s e"]
  show ?case by simp
qed

lemma gate_locked_after_failure:
  assumes s: "s = gate_run pz (controlledRequestGen u) evs"
    and i: "i < length (calls s)"
    and e: "(calls s ! i = AwaitingFetch req \<and> e = FetchSettles i (Rejected err))
          \<or> (calls s ! i = AwaitingJson resp \<and> e = JsonSettles i (Rejected err))"
  shows "\<not> allowRequests (gate_run pz (gate_step pz s e) evs')"
proof -
  have inv: "gate_inv s"
    unfolding s by (rule gate_inv_run [OF gate_inv_init])
  from e have fl: "in_flight (calls s ! i)" by auto
  note slot = gate_slot [OF inv i fl]
  from e i slot(1) slot(3) [of "Settled (Rejected err)"]
  have "\<not> allowRequests (gate_step pz s e) \<and> filter in_flight (calls (gate_step pz s e)) = []"
    by (auto simp: gate_fetch_settles_def gate_json_settles_def)
  then show ?thesis using gate_locked_run by blast
qed

lemma gate_reopens_on_success:
  assumes "i < length (calls s)" and "calls s ! i = AwaitingJson resp"
  shows "allowRequests (gate_json_settles i (Fulfilled result) s)
       \<and> calls (gate_json_settles i (Fulfilled result) s) ! i = Settled (Fulfilled result)
       \<and> calls (controlledRequest pz ps (gate_json_settles i (Fulfilled result) s))
           = (calls s)[i := Settled (Fulfilled result)]
               @ [AwaitingFetch \<lparr>fullUrl = url s @ pz ps, req_signal = None\<rparr>]"
  using assms by (simp add: gate_json_settles_def controlledRequest_def Let_def)

subsection \<open>Lemmas on the requesters of a page\<close>

lemma page_wf_empty: "page_wf empty_page"
  by (simp add: page_wf_def empty_page_def)

lemma in_range_grow:
  assumes "in_range p c"
    and "length (requestVars p) \<le> length (requestVars q)"
    and "length (controllers p) \<le> length (controllers q)"
    and "length (flagVars p) \<le> length (flagVars q)"
  shows "in_range q c"
  using assms by (cases c) auto

lemma apart_fresh_request:
  assumes "in_range p c"
  shows "apart c (Interruptible (length (requestVars p)) (length (controllers p)))"
    and "apart (Interruptible (length (requestVars p)) (length (controllers p))) c"
  using assms by (cases c; auto)+

lemma apart_fresh_flag:
  assumes "in_range p c"
  shows "apart c (Controlled (length (flagVars p)) u)"
    and "apart (Controlled (length (flagVars p)) u) c"
    and "apart c (Controlled2 (length (flagVars p)))"
    and "apart (Controlled2 (length (flagVars p))) c"
  using assms by (cases c; auto)+

lemma page_wf_newInterruptible: "page_wf p \<Longrightarrow> page_wf (newInterruptible p)"
  unfolding page_wf_def newInterruptible_def
  by (auto simp: nth_append less_Suc_eq apart_fresh_request
      intro: in_range_grow)

lemma page_wf_newControlled: "page_wf p \<Longrightarrow> page_wf (newControlled u p)"
  unfolding page_wf_def newControlled_def
  by (auto simp: nth_append less_Suc_eq apart_fresh_flag
      intro: in_range_grow)

lemma page_wf_newControlled2: "page_wf p \<Longrightarrow> page_wf (newControlled2 p)"
  unfolding page_wf_def newControlled2_def
  by (auto simp: nth_append less_Suc_eq apart_fresh_flag
      intro: in_range_grow)

lemma put_lengths:
  "length (requestVars (put p j c v)) = length (requestVars p)"
  "length (controllers (put p j c v)) = length (controllers p)"
  "length (flagVars (put p j c v)) = length (flagVars p)"
  "length (requesters (put p j c v)) = length (requesters p)"
  by (induction p j c v rule: put.induct) simp_all

lemma put_closure:
  assumes "j < length (requesters p)" and "fst (requesters p ! j) = c"
  shows "fst (requesters (put p j c v) ! k) = fst (requesters p ! k)"
  using assms
  by (induction p j c v rule: put.induct) (auto simp: nth_list_update)

lemma in_range_put: "in_range (put p j c v) d = in_range p d"
  by (cases d) (simp_all add: put_lengths)

lemma page_wf_put:
  assumes "page_wf p" and "j < length (requesters p)" and "fst (requesters p ! j) = c"
  shows "page_wf (put p j c v)"
  using assms(1)
  by (simp add: page_wf_def put_lengths in_range_put put_closure [OF assms(2,3)])

lemma page_wf_step: "page_wf p \<Longrightarrow> page_wf (page_step pz p a)"
  by (cases a)
     (simp_all add: page_wf_newInterruptible page_wf_newControlled page_wf_newControlled2
        page_wf_put)

lemma page_step_length: "length (requesters p) \<le> length (requesters (page_step pz p a))"
  by (cases a) (simp_all add: newInterruptible_def newControlled_def newControlled2_def put_lengths)

lemma preempt_step_signal: "signal (preempt_step pz s e) = signal s"
  by (induction pz s e rule: preempt_step.induct)
     (auto simp: makeRequest_def Let_def preempt_fetch_settles_def preempt_json_settles_def
        preempt_resumes_def split: phase.splits promise_result.splits)

lemma view_put_own:
  assumes wf: "page_wf p" and j: "j < length (requesters p)"
  shows "view (put p j (fst (requesters p ! j)) (coord_step pz (view p (requesters p ! j)) x))
           (requesters (put p j (fst (requesters p ! j))
              (coord_step pz (view p (requesters p ! j)) x)) ! j)
         = coord_step pz (view p (requesters p ! j)) x"
proof -
  obtain c cs where r: "requesters p ! j = (c, cs)" by (cases "requesters p ! j")
  from wf j r have rng: "in_range p c" by (auto simp: page_wf_def)
  show ?thesis
  proof (cases c)
    case (Interruptible a k)
    with rng j r show ?thesis
      by (cases x) (simp_all add: preempt_step_signal)
  next
    case (Controlled f u)
    with rng j r show ?thesis
      by (cases x) (simp_all add: gate_url_step)
  next
    case (Controlled2 f)
    with rng j r show ?thesis
      by (cases x) simp_all
  qed
qed

lemma view_put_other:
  assumes wf: "page_wf p" and j: "j < length (requesters p)" and k: "k < length (requesters p)"
    and ne: "k \<noteq> j"
  shows "view (put p j (fst (requesters p ! j)) v) (requesters (put p j (fst (requesters p ! j)) v) ! k)
         = view p (requesters p ! k)"
proof -
  obtain c cs where rj: "requesters p ! j = (c, cs)" by (cases "requesters p ! j")
  obtain d ds where rk: "requesters p ! k = (d, ds)" by (cases "requesters p ! k")
  from wf have "\<forall>i < length (requesters p). \<forall>j < length (requesters p).
      i \<noteq> j \<longrightarrow> apart (fst (requesters p ! i)) (fst (requesters p ! j))"
    by (simp add: page_wf_def)
  with j k ne have "apart (fst (requesters p ! j)) (fst (requesters p ! k))"
    by blast
  with rj rk have ap: "apart c d" by simp
  have same: "requesters (put p j c v) ! k = (d, ds)"
    using ne rk by (induction p j c v rule: put.induct) simp_all
  show ?thesis
    unfolding rj fst_conv same rk
    using ap
    by (induction p j c v rule: put.induct; cases d) auto
qed

lemma view_new:
  assumes wf: "page_wf p" and k: "k < length (requesters p)"
  shows "view (newInterruptible p) (requesters (newInterruptible p) ! k) = view p (requesters p ! k)"
    and "view (newControlled u p) (requesters (newControlled u p) ! k) = view p (requesters p ! k)"
    and "view (newControlled2 p) (requesters (newControlled2 p) ! k) = view p (requesters p ! k)"
proof -
  obtain d ds where rk: "requesters p ! k = (d, ds)" by (cases "requesters p ! k")
  from wf k rk have rng: "in_range p d" by (auto simp: page_wf_def)
  show "view (newInterruptible p) (requesters (newInterruptible p) ! k) = view p (requesters p ! k)"
    using k rk rng by (cases d) (simp_all add: newInterruptible_def nth_append)
  show "view (newControlled u p) (requesters (newControlled u p) ! k) = view p (requesters p ! k)"
    using k rk rng by (cases d) (simp_all add: newControlled_def nth_append)
  show "view (newControlled2 p) (requesters (newControlled2 p) ! k) = view p (requesters p ! k)"
    using k rk rng by (cases d) (simp_all add: newControlled2_def nth_append)
qed

lemma view_step:
  assumes wf: "page_wf p" and k: "k < length (requesters p)"
  shows "view (page_step pz p a) (requesters (page_step pz p a) ! k)
         = foldl (coord_step pz) (view p (requesters p ! k)) (ops_on k [a])"
proof (cases a)
  case (On j x)
  show ?thesis
  proof (cases "j = k")
    case True
    with On k view_put_own [OF wf k, of pz x] show ?thesis by simp
  next
    case False
    show ?thesis
    proof (cases "j < length (requesters p)")
      case True
      with On False view_put_other [OF wf True k] show ?thesis by auto
    next
      case out: False
      with On False show ?thesis by simp
    qed
  qed
qed (simp_all add: view_new [OF wf k])

lemma view_created:
  "view (newInterruptible p) (last (requesters (newInterruptible p)))
     = Preempt (interruptibleRequestGen (length (controllers p)))"
  "view (newControlled u p) (last (requesters (newControlled u p)))
     = Gate (controlledRequestGen u)"
  "view (newControlled2 p) (last (requesters (newControlled2 p)))
     = Manual controlledRequestGen2"
  by (simp_all add: newInterruptible_def newControlled_def newControlled2_def
      interruptibleRequestGen_def controlledRequestGen_def controlledRequestGen2_def)

subsection \<open>A call overtaken by a newer one\<close>

text \<open>
  Claim C1, as the code has it. Take any state the requester can reach in which the body
  read of call \<open>k\<close> has not produced a result and the call has not ended, let the
  requester be called again, and let anything happen afterwards. Then call \<open>k\<close> has still
  not ended or its promise is rejected; it is never fulfilled, neither with a result nor
  with a marker of cancellation. If the promise it awaits is pending, a response or a
  result that arrives for it is turned into a rejection with the abort error; whatever the
  awaited promise is rejected with, the promise of the call is rejected with. The fate of
  the newer call is left to claim C2.
\<close>

theorem superseded_call_rejects:
  assumes s: "s = preempt_run pz (interruptibleRequestGen sid) evs"
    and k: "k < length (calls s)" and ur: "unread (calls s ! k)"
    and t: "t = preempt_run pz s (Ev (Call (u, ps)) # evs')"
  shows "(unread (calls t ! k) \<or> (\<exists>e. calls t ! k = Settled (Rejected e)))
       \<and> (\<forall>result. calls t ! k \<noteq> Settled (Fulfilled result))
       \<and> (\<forall>req resp. calls t ! k = AwaitingFetch req \<longrightarrow>
             calls (preempt_run pz t [Ev (FetchSettles k (Fulfilled resp)), Resumes k]) ! k
               = Settled (Rejected AbortError))
       \<and> (\<forall>resp result. calls t ! k = AwaitingJson resp \<longrightarrow>
             calls (preempt_run pz t [Ev (JsonSettles k (Fulfilled result)), Resumes k]) ! k
               = Settled (Rejected AbortError))
       \<and> (\<forall>e. calls t ! k = FetchDone (Rejected e) \<or> calls t ! k = JsonDone (Rejected e) \<longrightarrow>
             calls (preempt_step pz t (Resumes k)) ! k = Settled (Rejected e))"
proof -
  have inv: "preempt_inv s"
    unfolding s by (rule preempt_inv_run [OF preempt_inv_init])
  have "doomed (makeRequest pz u ps s) k"
    using inv k ur by (rule superseded_is_doomed)
  then have "doomed (preempt_run pz (makeRequest pz u ps s) evs') k"
    by (rule doomed_run)
  then have d: "doomed t k"
    by (simp add: t preempt_run_def)
  then have ab: "aborted t" and kt: "k < length (calls t)"
    and ph: "unread (calls t ! k) \<or> failed (calls t ! k)"
    by (simp_all add: doomed_def)
  have fl: "failed p \<longleftrightarrow> (\<exists>e. p = Settled (Rejected e))" for p
    by (cases p rule: failed.cases) simp_all
  from ph fl have c1: "unread (calls t ! k) \<or> (\<exists>e. calls t ! k = Settled (Rejected e))"
    by simp
  from c1 have c2: "\<forall>result. calls t ! k \<noteq> Settled (Fulfilled result)"
    by auto
  from ab kt have c3: "\<forall>req resp. calls t ! k = AwaitingFetch req \<longrightarrow>
      calls (preempt_run pz t [Ev (FetchSettles k (Fulfilled resp)), Resumes k]) ! k
        = Settled (Rejected AbortError)"
    by (simp add: preempt_run_def preempt_fetch_settles_def preempt_resumes_def settles_def)
  from ab kt have c4: "\<forall>resp result. calls t ! k = AwaitingJson resp \<longrightarrow>
      calls (preempt_run pz t [Ev (JsonSettles k (Fulfilled result)), Resumes k]) ! k
        = Settled (Rejected AbortError)"
    by (simp add: preempt_run_def preempt_json_settles_def preempt_resumes_def settles_def)
  from kt have c5: "\<forall>e. calls t ! k = FetchDone (Rejected e) \<or> calls t ! k = JsonDone (Rejected e) \<longrightarrow>
      calls (preempt_step pz t (Resumes k)) ! k = Settled (Rejected e)"
    by (auto simp: preempt_resumes_def)
  from c1 c2 c3 c4 c5 show ?thesis by blast
qed

theorem superseded_call_rejects_witness:
  "0 < length (calls (preempt_run (\<lambda>_. []) (interruptibleRequestGen 0) [Ev (Call (''google'', []))]))
   \<and> unread
        (calls (preempt_run (\<lambda>_. []) (interruptibleRequestGen 0) [Ev (Call (''google'', []))]) ! 0)
   \<and> calls (preempt_run (\<lambda>_. []) (interruptibleRequestGen 0)
        [Ev (Call (''google'', [])), Ev (Call (''facebook'', []))]) ! 0
       = AwaitingFetch \<lparr>fullUrl = ''google'', req_signal = Some 0\<rparr>
   \<and> calls (preempt_run (\<lambda>_. [])
        (preempt_run (\<lambda>_. []) (interruptibleRequestGen 0)
           [Ev (Call (''google'', [])), Ev (Call (''facebook'', []))])
        [Ev (FetchSettles 0 (Fulfilled 7)), Resumes 0]) ! 0
       = Settled (Rejected AbortError)"
  using superseded_call_rejects
    [of "preempt_run (\<lambda>_. []) (interruptibleRequestGen 0) [Ev (Call (''google'', []))]"
        "\<lambda>_. []" 0 "[Ev (Call (''google'', []))]" 0
        "preempt_run (\<lambda>_. []) (interruptibleRequestGen 0)
           [Ev (Call (''google'', [])), Ev (Call (''facebook'', []))]"
        "''facebook''" "[]" "[]"]
  by (simp add: preempt_run_def makeRequest_def interruptibleRequestGen_def
      preempt_fetch_settles_def preempt_resumes_def settles_def)

text \<open>
  Two runs. In the first, the example of the post, \<^verbatim>\<open>get_one\<close> is called twice and both
  fetches get a response: the first call does not end fulfilled with a marker but
  rejected, and the second call, which nothing has overtaken, is rejected with the abort
  error as well. In the second, the requester is called again after the body read of the
  first call has produced its result and before the first call is resumed: the first call
  ends fulfilled with that result.
\<close>

theorem newer_call_aborted_too_counterexample:
  "calls (preempt_run (\<lambda>_. []) (interruptibleRequestGen 0)
      [Ev (Call (''google'', [])), Ev (Call (''facebook'', [])),
       Ev (FetchSettles 0 (Fulfilled 7)), Resumes 0,
       Ev (FetchSettles 1 (Fulfilled 8)), Resumes 1])
     = [Settled (Rejected AbortError), Settled (Rejected AbortError)]
   \<and> calls (preempt_run (\<lambda>_. []) (interruptibleRequestGen 0)
      [Ev (Call (''google'', [])), Ev (FetchSettles 0 (Fulfilled 7)), Resumes 0,
       Ev (JsonSettles 0 (Fulfilled (JStr ''g''))),
       Ev (Call (''facebook'', [])), Resumes 0])
     = [Settled (Fulfilled (JStr ''g'')),
        AwaitingFetch \<lparr>fullUrl = ''facebook'', req_signal = Some 0\<rparr>]"
  by (simp add: preempt_run_def makeRequest_def interruptibleRequestGen_def
      preempt_fetch_settles_def preempt_json_settles_def preempt_resumes_def settles_def)

subsection \<open>One abort signal for all calls\<close>

text \<open>
  Claim C2. The requests of the first and the second call carry the same signal, the one
  of the controller created with the requester; the second call aborts it, so the second
  request is created with a signal that is aborted already. After that the signal stays
  aborted: a third call made when the first two are over, whose fetch gets a response, is
  rejected with the abort error too.
\<close>

theorem one_signal_for_every_call:
  "calls (preempt_run (\<lambda>_. []) (interruptibleRequestGen 0)
      [Ev (Call (''google'', [])), Ev (Call (''facebook'', []))])
     = [AwaitingFetch \<lparr>fullUrl = ''google'', req_signal = Some 0\<rparr>,
        AwaitingFetch \<lparr>fullUrl = ''facebook'', req_signal = Some 0\<rparr>]
   \<and> aborted (preempt_run (\<lambda>_. []) (interruptibleRequestGen 0)
      [Ev (Call (''google'', [])), Ev (Call (''facebook'', []))])
   \<and> calls (preempt_run (\<lambda>_. []) (interruptibleRequestGen 0)
      [Ev (Call (''google'', [])), Ev (Call (''facebook'', [])),
       Ev (FetchSettles 0 (Fulfilled 7)), Resumes 0,
       Ev (FetchSettles 1 (Fulfilled 8)), Resumes 1,
       Ev (Call (''nodejs'', [])), Ev (FetchSettles 2 (Fulfilled 9)), Resumes 2])
     = [Settled (Rejected AbortError), Settled (Rejected AbortError),
        Settled (Rejected AbortError)]"
  by (simp add: preempt_run_def makeRequest_def interruptibleRequestGen_def
      preempt_fetch_settles_def preempt_resumes_def settles_def)

subsection \<open>The requests that may run\<close>

text \<open>
  Claim C3. In every state the first controlled requester can reach: a call made while
  \<^verbatim>\<open>allowRequests\<close> is false only adds a promise fulfilled with \<^verbatim>\<open>false\<close>, starts no
  request, and stays so whatever happens later; a call made while it is true sets
  \<^verbatim>\<open>allowRequests\<close> to false in the same step in which it creates the request and starts
  the fetch; and at most one call is suspended, before the call and after it.
\<close>

theorem gate_admits_one_at_a_time:
  assumes s: "s = gate_run pz (controlledRequestGen u) evs"
  shows "(\<not> allowRequests s \<longrightarrow>
            controlledRequest pz ps s
              = s\<lparr>calls := calls s @ [Settled (Fulfilled (JBool False))]\<rparr>
          \<and> (\<forall>evs'. calls (gate_run pz (controlledRequest pz ps s) evs') ! length (calls s)
                = Settled (Fulfilled (JBool False))))
       \<and> (allowRequests s \<longrightarrow>
            controlledRequest pz ps s
              = s\<lparr>allowRequests := False,
                  calls := calls s @ [AwaitingFetch \<lparr>fullUrl = url s @ pz ps, req_signal = None\<rparr>]\<rparr>)
       \<and> length (filter in_flight (calls s)) \<le> 1
       \<and> length (filter in_flight (calls (controlledRequest pz ps s))) \<le> 1"
proof -
  have inv: "gate_inv s"
    unfolding s by (rule gate_inv_run [OF gate_inv_init])
  then have inv': "gate_inv (controlledRequest pz ps s)" by (rule gate_inv_call)
  have never: "calls (gate_run pz (controlledRequest pz ps s) evs') ! length (calls s)
      = Settled (Fulfilled (JBool False))" if "\<not> allowRequests s" for evs'
  proof -
    from that have "length (calls s) < length (calls (controlledRequest pz ps s))"
      and "calls (controlledRequest pz ps s) ! length (calls s) = Settled (Fulfilled (JBool False))"
      by (simp_all add: controlledRequest_def)
    from gate_settled_run [OF this] show ?thesis by simp
  qed
  from inv inv' never show ?thesis
    by (simp add: gate_inv_def controlledRequest_def Let_def)
qed

theorem gate_admits_one_at_a_time_witness:
  "\<not> allowRequests (gate_run (\<lambda>_. ''?page=2'') (controlledRequestGen ''db'') [Call []])
   \<and> controlledRequest (\<lambda>_. ''?page=2'') []
        (gate_run (\<lambda>_. ''?page=2'') (controlledRequestGen ''db'') [Call []])
       = \<lparr>calls = [AwaitingFetch \<lparr>fullUrl = ''db?page=2'', req_signal = None\<rparr>,
                   Settled (Fulfilled (JBool False))],
          allowRequests = False, url = ''db''\<rparr>
   \<and> allowRequests (gate_run (\<lambda>_. ''?page=2'') (controlledRequestGen ''db'') [])
   \<and> controlledRequest (\<lambda>_. ''?page=2'') []
        (gate_run (\<lambda>_. ''?page=2'') (controlledRequestGen ''db'') [])
       = \<lparr>calls = [AwaitingFetch \<lparr>fullUrl = ''db?page=2'', req_signal = None\<rparr>],
          allowRequests = False, url = ''db''\<rparr>
   \<and> calls (gate_run (\<lambda>_. ''?page=2'')
        (controlledRequest (\<lambda>_. ''?page=2'') []
           (gate_run (\<lambda>_. ''?page=2'') (controlledRequestGen ''db'') [Call []]))
        [FetchSettles 1 (Fulfilled 7), JsonSettles 1 (Fulfilled JNull)]) ! 1
       = Settled (Fulfilled (JBool False))
   \<and> length (filter in_flight
        (calls (gate_run (\<lambda>_. ''?page=2'') (controlledRequestGen ''db'') [Call []]))) \<le> 1"
  using gate_admits_one_at_a_time
    [of "gate_run (\<lambda>_. ''?page=2'') (controlledRequestGen ''db'') [Call []]"
        "\<lambda>_. ''?page=2''" "''db''" "[Call []]" "[]"]
    gate_admits_one_at_a_time
    [of "gate_run (\<lambda>_. ''?page=2'') (controlledRequestGen ''db'') []"
        "\<lambda>_. ''?page=2''" "''db''" "[]" "[]"]
  by (simp add: gate_run_def controlledRequest_def controlledRequestGen_def
      gate_fetch_settles_def gate_json_settles_def)

subsection \<open>Re-opening on completion\<close>

text \<open>
  Claim C4. Three runs of the first controlled requester, each followed by further calls.
  When the fetch of the admitted call is rejected, and when its body read is rejected, the
  function is left before \<^verbatim>\<open>allowRequests = true\<close>: the flag stays false and every later
  call gets \<^verbatim>\<open>false\<close> without a request being made. When the body read produces its
  result, the flag is set and the next call is admitted. By lemma
  \<open>gate_locked_after_failure\<close> a requester that has seen one failure never allows a
  request again.
\<close>

theorem gate_stays_closed_after_failure:
  "gate_run (\<lambda>_. []) (controlledRequestGen ''db'')
      [Call [], FetchSettles 0 (Rejected (Failure ''offline'')), Call [], Call []]
     = \<lparr>calls = [Settled (Rejected (Failure ''offline'')), Settled (Fulfilled (JBool False)),
                 Settled (Fulfilled (JBool False))],
        allowRequests = False, url = ''db''\<rparr>
   \<and> gate_run (\<lambda>_. []) (controlledRequestGen ''db'')
      [Call [], FetchSettles 0 (Fulfilled 7), JsonSettles 0 (Rejected (Failure ''not json'')),
       Call [], Call []]
     = \<lparr>calls = [Settled (Rejected (Failure ''not json'')), Settled (Fulfilled (JBool False)),
                 Settled (Fulfilled (JBool False))],
        allowRequests = False, url = ''db''\<rparr>
   \<and> gate_run (\<lambda>_. []) (controlledRequestGen ''db'')
      [Call [], FetchSettles 0 (Fulfilled 7), JsonSettles 0 (Fulfilled JNull), Call []]
     = \<lparr>calls = [Settled (Fulfilled JNull),
                 AwaitingFetch \<lparr>fullUrl = ''db'', req_signal = None\<rparr>],
        allowRequests = False, url = ''db''\<rparr>"
  by (simp add: gate_run_def controlledRequest_def controlledRequestGen_def
      gate_fetch_settles_def gate_json_settles_def)

subsection \<open>Failures of the interruptible request\<close>

text \<open>
  Claim C5, as the code has it. When the promise that a call of the interruptible
  requester awaits has been rejected, the resumed call rejects its own promise with the
  same error and changes nothing else: there is no handler. An abort arrives the same way:
  with the controller aborted, a pending fetch or body read that would have been fulfilled
  is rejected with the abort error, and so is the call. An abort is told from another
  failure by the error only.
\<close>

theorem failure_surfaces_unchanged:
  assumes "i < length (calls s)"
  shows "(calls s ! i = FetchDone (Rejected e) \<or> calls s ! i = JsonDone (Rejected e) \<longrightarrow>
            preempt_resumes i s = s\<lparr>calls := (calls s)[i := Settled (Rejected e)]\<rparr>)
       \<and> (aborted s \<and> calls s ! i = AwaitingFetch req \<longrightarrow>
            calls (preempt_resumes i (preempt_fetch_settles i (Fulfilled resp) s)) ! i
              = Settled (Rejected AbortError))
       \<and> (aborted s \<and> calls s ! i = AwaitingJson resp' \<longrightarrow>
            calls (preempt_resumes i (preempt_json_settles i (Fulfilled result) s)) ! i
              = Settled (Rejected AbortError))"
  using assms
  by (auto simp: preempt_fetch_settles_def preempt_json_settles_def preempt_resumes_def
      settles_def)

theorem failure_surfaces_unchanged_witness:
  "0 < length (calls (preempt_run (\<lambda>_. []) (interruptibleRequestGen 0)
        [Ev (Call (''google'', [])), Ev (FetchSettles 0 (Rejected (Failure ''offline'')))]))
   \<and> calls (preempt_run (\<lambda>_. []) (interruptibleRequestGen 0)
        [Ev (Call (''google'', [])), Ev (FetchSettles 0 (Rejected (Failure ''offline'')))]) ! 0
       = FetchDone (Rejected (Failure ''offline''))
   \<and> preempt_run (\<lambda>_. []) (interruptibleRequestGen 0)
        [Ev (Call (''google'', [])), Ev (FetchSettles 0 (Rejected (Failure ''offline''))),
         Resumes 0]
       = \<lparr>calls = [Settled (Rejected (Failure ''offline''))], currentRequest = Some 0,
          signal = 0, aborted = False\<rparr>
   \<and> aborted (preempt_run (\<lambda>_. []) (interruptibleRequestGen 0)
        [Ev (Call (''google'', [])), Ev (FetchSettles 0 (Fulfilled 7)), Resumes 0,
         Ev (Call (''facebook'', []))])
   \<and> calls (preempt_run (\<lambda>_. []) (interruptibleRequestGen 0)
        [Ev (Call (''google'', [])), Ev (FetchSettles 0 (Fulfilled 7)), Resumes 0,
         Ev (Call (''facebook'', []))]) ! 0 = AwaitingJson 7
   \<and> calls (preempt_run (\<lambda>_. []) (interruptibleRequestGen 0)
        [Ev (Call (''google'', [])), Ev (FetchSettles 0 (Fulfilled 7)), Resumes 0,
         Ev (Call (''facebook'', [])), Ev (JsonSettles 0 (Fulfilled JNull)), Resumes 0]) ! 0
       = Settled (Rejected AbortError)"
  using failure_surfaces_unchanged
    [of 0 "preempt_run (\<lambda>_. []) (interruptibleRequestGen 0)
        [Ev (Call (''google'', [])), Ev (FetchSettles 0 (Rejected (Failure ''offline'')))]"
        "Failure ''offline''" "\<lparr>fullUrl = ''google'', req_signal = Some 0\<rparr>" 7 7 JNull]
    failure_surfaces_unchanged
    [of 0 "preempt_run (\<lambda>_. []) (interruptibleRequestGen 0)
        [Ev (Call (''google'', [])), Ev (FetchSettles 0 (Fulfilled 7)), Resumes 0,
         Ev (Call (''facebook'', []))]"
        "Failure ''offline''" "\<lparr>fullUrl = ''google'', req_signal = Some 0\<rparr>" 7 7 JNull]
  by (simp add: preempt_run_def makeRequest_def interruptibleRequestGen_def
      preempt_fetch_settles_def preempt_json_settles_def preempt_resumes_def settles_def)

text \<open>
  A call overtaken while its fetch is pending: its promise is rejected, not fulfilled.
\<close>

theorem abort_is_raised_counterexample:
  "calls (preempt_run (\<lambda>_. []) (interruptibleRequestGen 0)
      [Ev (Call (''google'', [])), Ev (Call (''facebook'', [])),
       Ev (FetchSettles 0 (Fulfilled 7)), Resumes 0]) ! 0
     = Settled (Rejected AbortError)"
  by (simp add: preempt_run_def makeRequest_def interruptibleRequestGen_def
      preempt_fetch_settles_def preempt_resumes_def settles_def)

subsection \<open>Who clears the current request\<close>

text \<open>
  Claim C6, as the code has it. In every state the interruptible requester can reach:
  the only step that makes \<^verbatim>\<open>currentRequest\<close> \<^verbatim>\<open>null\<close> is the resumption of a call whose
  body read has produced its result, and as long as the controller has not been aborted
  that call is the one \<^verbatim>\<open>currentRequest\<close> refers to. A call that is overtaken before its
  body read has produced a result never changes \<^verbatim>\<open>currentRequest\<close> afterwards, whatever
  happens: neither when a promise it awaits settles nor when it is resumed.
\<close>

theorem clear_on_success_only:
  assumes s: "s = preempt_run pz (interruptibleRequestGen sid) evs"
  shows "(currentRequest s = Some j \<and> currentRequest (preempt_step pz s e) = None \<longrightarrow>
            (\<exists>i result. e = Resumes i \<and> i < length (calls s)
               \<and> calls s ! i = JsonDone (Fulfilled result)
               \<and> calls (preempt_step pz s e) ! i = Settled (Fulfilled result)
               \<and> (i = j \<or> aborted s)))
       \<and> (k < length (calls s) \<and> unread (calls s ! k) \<longrightarrow>
            (\<forall>evs' r r'.
               currentRequest
                 (preempt_step pz (preempt_run pz s (Ev (Call (u, ps)) # evs')) (Resumes k))
                 = currentRequest (preempt_run pz s (Ev (Call (u, ps)) # evs'))
             \<and> currentRequest
                 (preempt_step pz (preempt_run pz s (Ev (Call (u, ps)) # evs'))
                    (Ev (FetchSettles k r)))
                 = currentRequest (preempt_run pz s (Ev (Call (u, ps)) # evs'))
             \<and> currentRequest
                 (preempt_step pz (preempt_run pz s (Ev (Call (u, ps)) # evs'))
                    (Ev (JsonSettles k r')))
                 = currentRequest (preempt_run pz s (Ev (Call (u, ps)) # evs'))))"
proof -
  have inv: "preempt_inv s"
    unfolding s by (rule preempt_inv_run [OF preempt_inv_init])
  have part1: "\<exists>i result. e = Resumes i \<and> i < length (calls s)
      \<and> calls s ! i = JsonDone (Fulfilled result)
      \<and> calls (preempt_step pz s e) ! i = Settled (Fulfilled result)
      \<and> (i = j \<or> aborted s)"
    if cur: "currentRequest s = Some j" and clr: "currentRequest (preempt_step pz s e) = None"
  proof (cases e)
    case (Ev a)
    show ?thesis
    proof (cases a)
      case (Call c)
      with Ev clr show ?thesis by (cases c) (simp add: makeRequest_def Let_def)
    next
      case (FetchSettles i r)
      with Ev cur clr show ?thesis by (simp add: settle_keeps_current)
    next
      case (JsonSettles i r)
      with Ev cur clr show ?thesis by (simp add: settle_keeps_current)
    qed
  next
    case (Resumes i)
    with cur clr obtain result where i: "i < length (calls s)"
      and at: "calls s ! i = JsonDone (Fulfilled result)"
      by (auto simp: preempt_resumes_def split: if_splits phase.splits promise_result.splits)
    have "i = j \<or> aborted s"
    proof (cases "aborted s")
      case True
      then show ?thesis by simp
    next
      case False
      from at have "in_flight (calls s ! i)" by simp
      with inv False i have "currentRequest s = Some i"
        unfolding preempt_inv_def by blast
      with cur show ?thesis by simp
    qed
    with Resumes i at show ?thesis
      by (simp add: preempt_resumes_def)
  qed
  have part2: "currentRequest (preempt_step pz t (Resumes k)) = currentRequest t
      \<and> currentRequest (preempt_step pz t (Ev (FetchSettles k r))) = currentRequest t
      \<and> currentRequest (preempt_step pz t (Ev (JsonSettles k r'))) = currentRequest t"
    if k: "k < length (calls s)" and ur: "unread (calls s ! k)"
      and t: "t = preempt_run pz s (Ev (Call (u, ps)) # evs')" for evs' r r' t
  proof -
    have "doomed (makeRequest pz u ps s) k"
      using inv k ur by (rule superseded_is_doomed)
    then have "doomed (preempt_run pz (makeRequest pz u ps s) evs') k"
      by (rule doomed_run)
    then have d: "doomed t k"
      by (simp add: t preempt_run_def)
    then have "currentRequest (preempt_resumes k t) = currentRequest t"
      by (auto simp: doomed_def preempt_resumes_def split: phase.splits promise_result.splits)
    then show ?thesis by (simp add: settle_keeps_current)
  qed
  from part1 part2 show ?thesis by blast
qed

theorem clear_on_success_only_witness:
  "currentRequest (preempt_run (\<lambda>_. []) (interruptibleRequestGen 0)
      [Ev (Call (''google'', [])), Ev (FetchSettles 0 (Fulfilled 7)), Resumes 0,
       Ev (JsonSettles 0 (Fulfilled JNull)), Ev (Call (''facebook'', []))]) = Some 1
   \<and> currentRequest (preempt_run (\<lambda>_. []) (interruptibleRequestGen 0)
      [Ev (Call (''google'', [])), Ev (FetchSettles 0 (Fulfilled 7)), Resumes 0,
       Ev (JsonSettles 0 (Fulfilled JNull)), Ev (Call (''facebook'', [])), Resumes 0]) = None
   \<and> aborted (preempt_run (\<lambda>_. []) (interruptibleRequestGen 0)
      [Ev (Call (''google'', [])), Ev (FetchSettles 0 (Fulfilled 7)), Resumes 0,
       Ev (JsonSettles 0 (Fulfilled JNull)), Ev (Call (''facebook'', []))])
   \<and> unread (calls (preempt_run (\<lambda>_. []) (interruptibleRequestGen 0)
      [Ev (Call (''google'', [])), Ev (FetchSettles 0 (Fulfilled 7)), Resumes 0]) ! 0)
   \<and> currentRequest (preempt_run (\<lambda>_. []) (interruptibleRequestGen 0)
      [Ev (Call (''google'', [])), Ev (FetchSettles 0 (Fulfilled 7)), Resumes 0,
       Ev (Call (''facebook'', [])), Ev (JsonSettles 0 (Fulfilled JNull)), Resumes 0]) = Some 1"
  using clear_on_success_only
    [of "preempt_run (\<lambda>_. []) (interruptibleRequestGen 0)
          [Ev (Call (''google'', [])), Ev (FetchSettles 0 (Fulfilled 7)), Resumes 0,
           Ev (JsonSettles 0 (Fulfilled JNull)), Ev (Call (''facebook'', []))]"
        "\<lambda>_. []" 0
        "[Ev (Call (''google'', [])), Ev (FetchSettles 0 (Fulfilled 7)), Resumes 0,
           Ev (JsonSettles 0 (Fulfilled JNull)), Ev (Call (''facebook'', []))]"
        1 "Resumes 0" 0 "''facebook''" "[]"]
    clear_on_success_only
    [of "preempt_run (\<lambda>_. []) (interruptibleRequestGen 0)
          [Ev (Call (''google'', [])), Ev (FetchSettles 0 (Fulfilled 7)), Resumes 0]"
        "\<lambda>_. []" 0
        "[Ev (Call (''google'', [])), Ev (FetchSettles 0 (Fulfilled 7)), Resumes 0]"
        0 "Resumes 0" 0 "''facebook''" "[]"]
  by (simp add: preempt_run_def makeRequest_def interruptibleRequestGen_def
      preempt_fetch_settles_def preempt_json_settles_def preempt_resumes_def settles_def)

text \<open>
  The assignment of line 78 compares nothing. A call that is overtaken after its body read
  has produced its result and before it is resumed makes \<^verbatim>\<open>currentRequest\<close> \<^verbatim>\<open>null\<close>
  while it refers to the Request of the newer call, which is still suspended.
\<close>

theorem stale_call_clears_newer_record_counterexample:
  "preempt_run (\<lambda>_. []) (interruptibleRequestGen 0)
      [Ev (Call (''google'', [])), Ev (FetchSettles 0 (Fulfilled 7)), Resumes 0,
       Ev (JsonSettles 0 (Fulfilled (JStr ''g''))), Ev (Call (''facebook'', []))]
     = \<lparr>calls = [JsonDone (Fulfilled (JStr ''g'')),
                 AwaitingFetch \<lparr>fullUrl = ''facebook'', req_signal = Some 0\<rparr>],
        currentRequest = Some 1, signal = 0, aborted = True\<rparr>
   \<and> preempt_run (\<lambda>_. []) (interruptibleRequestGen 0)
      [Ev (Call (''google'', [])), Ev (FetchSettles 0 (Fulfilled 7)), Resumes 0,
       Ev (JsonSettles 0 (Fulfilled (JStr ''g''))), Ev (Call (''facebook'', [])), Resumes 0]
     = \<lparr>calls = [Settled (Fulfilled (JStr ''g'')),
                 AwaitingFetch \<lparr>fullUrl = ''facebook'', req_signal = Some 0\<rparr>],
        currentRequest = None, signal = 0, aborted = True\<rparr>"
  by (simp add: preempt_run_def makeRequest_def interruptibleRequestGen_def
      preempt_fetch_settles_def preempt_json_settles_def preempt_resumes_def settles_def)

subsection \<open>Re-opening by the caller\<close>

text \<open>
  Claim C7. Let the second controlled requester admit a call, and let anything but
  \<^verbatim>\<open>allowMoreRequests\<close> happen afterwards, the completion of that call included. Then the
  next call only gets \<^verbatim>\<open>false\<close>; made after \<^verbatim>\<open>allowMoreRequests\<close>, it is admitted.
\<close>

theorem manual_gate_needs_release:
  assumes "allowRequests s" and "AllowMoreRequests \<notin> set evs"
    and "t = manual_run pz s (Async (Call (u, ps)) # evs)"
  shows "requester pz u' ps' t = t\<lparr>calls := calls t @ [Settled (Fulfilled (JBool False))]\<rparr>
       \<and> requester pz u' ps' (allowMoreRequests t)
           = t\<lparr>calls := calls t @ [AwaitingFetch \<lparr>fullUrl = u' @ pz ps', req_signal = None\<rparr>]\<rparr>"
proof -
  have "\<not> allowRequests (requester pz u ps s)"
    using assms(1) by (simp add: requester_def Let_def)
  then have "\<not> allowRequests (manual_run pz (requester pz u ps s) evs)"
    using assms(2) by (rule manual_closed_run)
  then have closed: "\<not> allowRequests t"
    by (simp add: assms(3) manual_run_def)
  then show ?thesis
    by (simp add: requester_def allowMoreRequests_def Let_def)
qed

theorem manual_gate_needs_release_witness:
  "allowRequests controlledRequestGen2
   \<and> AllowMoreRequests \<notin> set [Async (FetchSettles 0 (Fulfilled 7)),
        Async (JsonSettles 0 (Fulfilled JNull)) :: (string \<times> params) manual_event]
   \<and> calls (manual_run (\<lambda>_. []) controlledRequestGen2
        [Async (Call (''db'', [])), Async (FetchSettles 0 (Fulfilled 7)),
         Async (JsonSettles 0 (Fulfilled JNull)), Async (Call (''db'', []))])
       = [Settled (Fulfilled JNull), Settled (Fulfilled (JBool False))]
   \<and> calls (manual_run (\<lambda>_. []) controlledRequestGen2
        [Async (Call (''db'', [])), Async (FetchSettles 0 (Fulfilled 7)),
         Async (JsonSettles 0 (Fulfilled JNull)), AllowMoreRequests, Async (Call (''db'', []))])
       = [Settled (Fulfilled JNull), AwaitingFetch \<lparr>fullUrl = ''db'', req_signal = None\<rparr>]"
  using manual_gate_needs_release
    [of controlledRequestGen2
        "[Async (FetchSettles 0 (Fulfilled 7)), Async (JsonSettles 0 (Fulfilled JNull))]"
        "manual_run (\<lambda>_. []) controlledRequestGen2
           [Async (Call (''db'', [])), Async (FetchSettles 0 (Fulfilled 7)),
            Async (JsonSettles 0 (Fulfilled JNull))]"
        "\<lambda>_. []" "''db''" "[]" "''db''" "[]"]
  by (simp add: manual_run_def requester_def controlledRequestGen2_def
      manual_fetch_settles_def manual_json_settles_def allowMoreRequests_def)

subsection \<open>What the caller of a controlled request sees\<close>




subsection \<open>Requesters do not share state\<close>

text \<open>
  Claim C9. On a page reached by creating requesters of the three kinds and using them in
  any order, every requester keeps to the variables its own generator call created: after
  any further actions, what requester \<open>j\<close> is (the values of its variables and the
  outcomes of its calls) is what its own events alone make of it. Creating other
  requesters, calling them, aborting their controllers or re-opening them changes nothing
  for \<open>j\<close>, also when they request the same URL.
\<close>

theorem requesters_do_not_share_state:
  assumes p: "p = page_run pz empty_page acts0" and j: "j < length (requesters p)"
  shows "j < length (requesters (page_run pz p acts))
       \<and> view (page_run pz p acts) (requesters (page_run pz p acts) ! j)
           = coord_run pz (view p (requesters p ! j)) (ops_on j acts)"
proof -
  have wf_run: "page_wf (page_run pz q as)" if "page_wf q" for q as
    using that unfolding page_run_def
    by (induction as arbitrary: q) (simp_all add: page_wf_step)
  have wf: "page_wf p"
    unfolding p by (rule wf_run [OF page_wf_empty])
  have "j < length (requesters (foldl (page_step pz) q acts))
       \<and> view (foldl (page_step pz) q acts) (requesters (foldl (page_step pz) q acts) ! j)
           = foldl (coord_step pz) (view q (requesters q ! j)) (ops_on j acts)"
    if "page_wf q" and "j < length (requesters q)" for q
    using that
  proof (induction acts arbitrary: q)
    case Nil
    then show ?case by simp
  next
    case (Cons a acts)
    from Cons.prems(2) page_step_length [of q pz a]
    have len: "j < length (requesters (page_step pz q a))" by simp
    have wf': "page_wf (page_step pz q a)"
      using Cons.prems(1) by (rule page_wf_step)
    have split: "ops_on j (a # acts) = ops_on j [a] @ ops_on j acts"
      by (cases a) simp_all
    from Cons.IH [OF wf' len] view_step [OF Cons.prems, of pz a] split
    show ?case by simp
  qed
  from this [OF wf j] show ?thesis
    by (simp add: page_run_def coord_run_def)
qed

theorem requesters_do_not_share_state_witness:
  "3 < length (requesters (page_run (\<lambda>_. []) empty_page
       [NewControlled ''db'', NewControlled ''db'', NewInterruptible, NewInterruptible]))
   \<and> view
       (page_run (\<lambda>_. []) empty_page
          [NewControlled ''db'', NewControlled ''db'', NewInterruptible, NewInterruptible,
           On 0 (GateOp (Call [])), On 2 (PreemptOp (Ev (Call (''db'', [])))),
           On 2 (PreemptOp (Ev (Call (''db'', [])))), On 3 (PreemptOp (Ev (Call (''db'', [])))),
           On 1 (GateOp (Call []))])
       (requesters
          (page_run (\<lambda>_. []) empty_page
             [NewControlled ''db'', NewControlled ''db'', NewInterruptible, NewInterruptible,
              On 0 (GateOp (Call [])), On 2 (PreemptOp (Ev (Call (''db'', [])))),
              On 2 (PreemptOp (Ev (Call (''db'', [])))), On 3 (PreemptOp (Ev (Call (''db'', [])))),
              On 1 (GateOp (Call []))]) ! 1)
     = Gate \<lparr>calls = [AwaitingFetch \<lparr>fullUrl = ''db'', req_signal = None\<rparr>],
             allowRequests = False, url = ''db''\<rparr>
   \<and> view
       (page_run (\<lambda>_. []) empty_page
          [NewControlled ''db'', NewControlled ''db'', NewInterruptible, NewInterruptible,
           On 0 (GateOp (Call [])), On 2 (PreemptOp (Ev (Call (''db'', [])))),
           On 2 (PreemptOp (Ev (Call (''db'', [])))), On 3 (PreemptOp (Ev (Call (''db'', [])))),
           On 1 (GateOp (Call []))])
       (requesters
          (page_run (\<lambda>_. []) empty_page
             [NewControlled ''db'', NewControlled ''db'', NewInterruptible, NewInterruptible,
              On 0 (GateOp (Call [])), On 2 (PreemptOp (Ev (Call (''db'', [])))),
              On 2 (PreemptOp (Ev (Call (''db'', [])))), On 3 (PreemptOp (Ev (Call (''db'', [])))),
              On 1 (GateOp (Call []))]) ! 3)
     = Preempt \<lparr>calls = [AwaitingFetch \<lparr>fullUrl = ''db'', req_signal = Some 1\<rparr>],
                currentRequest = Some 0, signal = 1, aborted = False\<rparr>"
  using requesters_do_not_share_state
    [of "page_run (\<lambda>_. []) empty_page
          [NewControlled ''db'', NewControlled ''db'', NewInterruptible, NewInterruptible]"
        "\<lambda>_. []"
        "[NewControlled ''db'', NewControlled ''db'', NewInterruptible, NewInterruptible]"
        1
        "[On 0 (GateOp (Call [])), On 2 (PreemptOp (Ev (Call (''db'', [])))),
          On 2 (PreemptOp (Ev (Call (''db'', [])))), On 3 (PreemptOp (Ev (Call (''db'', [])))),
          On 1 (GateOp (Call []))]"]
    requesters_do_not_share_state
    [of "page_run (\<lambda>_. []) empty_page
          [NewControlled ''db'', NewControlled ''db'', NewInterruptible, NewInterruptible]"
        "\<lambda>_. []"
        "[NewControlled ''db'', NewControlled ''db'', NewInterruptible, NewInterruptible]"
        3
        "[On 0 (GateOp (Call [])), On 2 (PreemptOp (Ev (Call (''db'', [])))),
          On 2 (PreemptOp (Ev (Call (''db'', [])))), On 3 (PreemptOp (Ev (Call (''db'', [])))),
          On 1 (GateOp (Call []))]"]
  by (simp add: page_run_def coord_run_def empty_page_def newControlled_def
      newInterruptible_def controlledRequest_def makeRequest_def)

subsection \<open>A suppressed call changes nothing\<close>

text \<open>
  Claim C10. A call of either controlled requester made while \<^verbatim>\<open>allowRequests\<close> is false
  takes the \<^verbatim>\<open>else\<close> branch only: the closure variables keep their values (the flag
  stays false, the URL is the same), the promises of earlier calls are untouched, no
  request is created, and the promise of this call is fulfilled with \<^verbatim>\<open>false\<close> at once.
\<close>

theorem suppressed_call_frame:
  "(\<not> allowRequests g \<longrightarrow>
      controlledRequest pz ps g = g\<lparr>calls := calls g @ [Settled (Fulfilled (JBool False))]\<rparr>
      \<and> \<not> allowRequests (controlledRequest pz ps g)
      \<and> url (controlledRequest pz ps g) = url g
      \<and> take (length (calls g)) (calls (controlledRequest pz ps g)) = calls g)
   \<and> (\<not> allowRequests m \<longrightarrow>
      requester pz u ps m = m\<lparr>calls := calls m @ [Settled (Fulfilled (JBool False))]\<rparr>
      \<and> \<not> allowRequests (requester pz u ps m)
      \<and> take (length (calls m)) (calls (requester pz u ps m)) = calls m)"
  by (simp add: controlledRequest_def requester_def)

theorem suppressed_call_frame_witness:
  "\<not> allowRequests (controlledRequest (\<lambda>_. []) [] (controlledRequestGen ''db''))
   \<and> controlledRequest (\<lambda>_. []) [] (controlledRequest (\<lambda>_. []) [] (controlledRequestGen ''db''))
       = \<lparr>calls = [AwaitingFetch \<lparr>fullUrl = ''db'', req_signal = None\<rparr>,
                   Settled (Fulfilled (JBool False))],
          allowRequests = False, url = ''db''\<rparr>
   \<and> \<not> allowRequests (requester (\<lambda>_. []) ''db'' [] controlledRequestGen2)
   \<and> requester (\<lambda>_. []) ''db'' [] (requester (\<lambda>_. []) ''db'' [] controlledRequestGen2)
       = \<lparr>calls = [AwaitingFetch \<lparr>fullUrl = ''db'', req_signal = None\<rparr>,
                   Settled (Fulfilled (JBool False))],
          allowRequests = False\<rparr>"
  using suppressed_call_frame
    [of "controlledRequest (\<lambda>_. []) [] (controlledRequestGen ''db'')" "\<lambda>_. []" "[]"
        "requester (\<lambda>_. []) ''db'' [] controlledRequestGen2" "''db''"]
  by (simp add: controlledRequest_def requester_def controlledRequestGen_def
      controlledRequestGen2_def)

end
